theory Spec2Isabelle
  imports Main "HOL-Library.Multiset"
begin

section \<open>Time values and the calendar of the JavaScript Date object\<close>

text \<open>
  A JavaScript \<^verbatim>\<open>Date\<close> is its time value: the number of milliseconds since
  1970-01-01T00:00:00Z. All dates of the program are modelled by that integer; invalid
  dates (NaN) are not modelled. The getters and setters of \<^verbatim>\<open>Date\<close> work on
  the local time of the host; the host's zone is the parameter \<open>host\<close>, its offset from
  UTC in milliseconds (positive east of Greenwich). The offset is taken to be constant:
  daylight-saving transitions of the host are outside the model.

  The calendar functions below follow the abstract operations of the ECMAScript
  specification (Day, TimeWithinDay, DayFromYear, YearFromTime, MonthFromTime,
  DateFromTime, MakeDay, MakeDate), stated on day numbers.
\<close>

type_synonym Date = int

definition msPerDay :: int where
  "msPerDay = 86400000"

definition Day :: "int \<Rightarrow> int" where
  "Day t = t div msPerDay"

definition TimeWithinDay :: "int \<Rightarrow> int" where
  "TimeWithinDay t = t mod msPerDay"

definition isLeapYear :: "int \<Rightarrow> bool" where
  "isLeapYear y = (y mod 4 = 0 \<and> (y mod 100 \<noteq> 0 \<or> y mod 400 = 0))"

definition DaysInYear :: "int \<Rightarrow> int" where
  "DaysInYear y = (if isLeapYear y then 366 else 365)"

definition DayFromYear :: "int \<Rightarrow> int" where
  "DayFromYear y =
     365 * (y - 1970) + (y - 1969) div 4 - (y - 1901) div 100 + (y - 1601) div 400"

text \<open>
  ECMAScript defines the year of a day as the largest \<open>y\<close> with
  \<open>DayFromYear y \<le> z\<close>. The executable form estimates the year from the mean length
  of a Gregorian year (146097 days in 400 years) and corrects the estimate by at most
  one; lemma \<open>YearFromDay_unique\<close> below shows that it is the year ECMAScript means.
\<close>

definition YearFromDay :: "int \<Rightarrow> int" where
  "YearFromDay z =
     (let y = 1970 + (400 * z) div 146097
      in if z < DayFromYear y then y - 1
         else if DayFromYear (y + 1) \<le> z then y + 1
         else y)"

definition DayWithinYear :: "int \<Rightarrow> int" where
  "DayWithinYear z = z - DayFromYear (YearFromDay z)"

definition leapDays :: "int \<Rightarrow> int" where
  "leapDays y = (if isLeapYear y then 1 else 0)"

text \<open>Day within the year on which month \<open>m\<close> (0 = January) starts.\<close>

definition monthStart :: "int \<Rightarrow> int \<Rightarrow> int" where
  "monthStart y m =
     (if m = 0 then 0
      else if m = 1 then 31
      else if m = 2 then 59 + leapDays y
      else if m = 3 then 90 + leapDays y
      else if m = 4 then 120 + leapDays y
      else if m = 5 then 151 + leapDays y
      else if m = 6 then 181 + leapDays y
      else if m = 7 then 212 + leapDays y
      else if m = 8 then 243 + leapDays y
      else if m = 9 then 273 + leapDays y
      else if m = 10 then 304 + leapDays y
      else 334 + leapDays y)"

definition MonthFromDay :: "int \<Rightarrow> int" where
  "MonthFromDay z =
     (let y = YearFromDay z; d = DayWithinYear z; l = leapDays y
      in if d < 31 then 0
         else if d < 59 + l then 1
         else if d < 90 + l then 2
         else if d < 120 + l then 3
         else if d < 151 + l then 4
         else if d < 181 + l then 5
         else if d < 212 + l then 6
         else if d < 243 + l then 7
         else if d < 273 + l then 8
         else if d < 304 + l then 9
         else if d < 334 + l then 10
         else 11)"

definition DateFromDay :: "int \<Rightarrow> int" where
  "DateFromDay z = DayWithinYear z - monthStart (YearFromDay z) (MonthFromDay z) + 1"

definition MakeDay :: "int \<Rightarrow> int \<Rightarrow> int \<Rightarrow> int" where
  "MakeDay year month date =
     (let ym = year + month div 12; mn = month mod 12
      in DayFromYear ym + monthStart ym mn + date - 1)"

definition MakeDate :: "int \<Rightarrow> int \<Rightarrow> int" where
  "MakeDate day time = day * msPerDay + time"

subsection \<open>Methods of Date, in the host's local time\<close>

definition LocalTime :: "int \<Rightarrow> Date \<Rightarrow> int" where
  "LocalTime host t = t + host"

definition UTC :: "int \<Rightarrow> int \<Rightarrow> Date" where
  "UTC host t = t - host"

definition getFullYear :: "int \<Rightarrow> Date \<Rightarrow> int" where
  "getFullYear host d = YearFromDay (Day (LocalTime host d))"

definition getMonth :: "int \<Rightarrow> Date \<Rightarrow> int" where
  "getMonth host d = MonthFromDay (Day (LocalTime host d))"

definition getDate :: "int \<Rightarrow> Date \<Rightarrow> int" where
  "getDate host d = DateFromDay (Day (LocalTime host d))"

definition setDate :: "int \<Rightarrow> Date \<Rightarrow> int \<Rightarrow> Date" where
  "setDate host d dt =
     (let t = LocalTime host d
      in UTC host (MakeDate (MakeDay (YearFromDay (Day t)) (MonthFromDay (Day t)) dt)
                            (TimeWithinDay t)))"

definition setMonth :: "int \<Rightarrow> Date \<Rightarrow> int \<Rightarrow> int \<Rightarrow> Date" where
  "setMonth host d month dt =
     (let t = LocalTime host d
      in UTC host (MakeDate (MakeDay (YearFromDay (Day t)) month dt) (TimeWithinDay t)))"

definition setFullYear :: "int \<Rightarrow> Date \<Rightarrow> int \<Rightarrow> int \<Rightarrow> int \<Rightarrow> Date" where
  "setFullYear host d year month dt =
     (let t = LocalTime host d
      in UTC host (MakeDate (MakeDay year month dt) (TimeWithinDay t)))"

text \<open>\<^verbatim>\<open>setHours(0, 0, 0, 0)\<close>: the same local day, time within the day zero.\<close>

definition setHoursZero :: "int \<Rightarrow> Date \<Rightarrow> Date" where
  "setHoursZero host d = UTC host (MakeDate (Day (LocalTime host d)) 0)"

subsection \<open>The functions of date-fns and date-fns-tz that the program calls\<close>

text \<open>
  These are library functions, not code of the repository; each is modelled on the
  library's implementation in terms of the Date methods above.
\<close>

definition startOfDay :: "int \<Rightarrow> Date \<Rightarrow> Date" where
  "startOfDay host d = setHoursZero host d"

text \<open>\<^verbatim>\<open>addDays\<close>: \<^verbatim>\<open>if (!amount) return date; date.setDate(date.getDate() + amount)\<close>.\<close>

definition addDays :: "int \<Rightarrow> Date \<Rightarrow> int \<Rightarrow> Date" where
  "addDays host d amount =
     (if amount = 0 then d else setDate host d (getDate host d + amount))"

text \<open>
  \<^verbatim>\<open>addMonths\<close>: day 0 of the month after the desired one is the last day of the
  desired month; the day of the month is kept unless the desired month is too short.
\<close>

definition addMonths :: "int \<Rightarrow> Date \<Rightarrow> int \<Rightarrow> Date" where
  "addMonths host d amount =
     (if amount = 0 then d
      else
        let dayOfMonth = getDate host d;
            endOfDesiredMonth = setMonth host d (getMonth host d + amount + 1) 0;
            daysInMonth = getDate host endOfDesiredMonth
        in if dayOfMonth \<ge> daysInMonth then endOfDesiredMonth
           else setFullYear host d (getFullYear host endOfDesiredMonth)
                  (getMonth host endOfDesiredMonth) dayOfMonth)"

definition isAfter :: "Date \<Rightarrow> Date \<Rightarrow> bool" where
  "isAfter d dateToCompare = (d > dateToCompare)"

definition isSameDay :: "int \<Rightarrow> Date \<Rightarrow> Date \<Rightarrow> bool" where
  "isSameDay host laterDate earlierDate =
     (startOfDay host laterDate = startOfDay host earlierDate)"

text \<open>
  \<^verbatim>\<open>differenceInCalendarDays\<close> rounds the distance of the two local midnights,
  each corrected by its zone offset, to days; with a constant offset the corrections
  cancel and the distance is a whole number of days.
\<close>

definition differenceInCalendarDays :: "int \<Rightarrow> Date \<Rightarrow> Date \<Rightarrow> int" where
  "differenceInCalendarDays host laterDate earlierDate =
     (startOfDay host laterDate - startOfDay host earlierDate) div msPerDay"

text \<open>
  \<^verbatim>\<open>compareLocalAscending\<close> compares year, month, day and time of day
  lexicographically and returns the sign of the first difference; on one constant
  offset that is the sign of the difference of the time values.
\<close>

definition compareLocalAscending :: "Date \<Rightarrow> Date \<Rightarrow> int" where
  "compareLocalAscending a b = sgn (a - b)"

definition differenceInDays :: "int \<Rightarrow> Date \<Rightarrow> Date \<Rightarrow> int" where
  "differenceInDays host laterDate earlierDate =
     (let sign = compareLocalAscending laterDate earlierDate;
          difference = \<bar>differenceInCalendarDays host laterDate earlierDate\<bar>;
          moved = setDate host laterDate (getDate host laterDate - sign * difference);
          isLastDayNotFull = (if compareLocalAscending moved earlierDate = - sign then 1 else 0)
      in sign * (difference - isLastDayNotFull))"

text \<open>
  \<^verbatim>\<open>toZonedTime(date, tz)\<close> builds the Date whose local fields on the host show the
  wall clock of zone \<open>tz\<close> at the instant \<open>date\<close>: the time value moves by the
  difference of the two offsets. Hong Kong is UTC+8 without daylight saving.
\<close>

definition toZonedTime :: "int \<Rightarrow> Date \<Rightarrow> int \<Rightarrow> Date" where
  "toZonedTime host d tzOffset = d + tzOffset - host"

definition TIMEZONE :: int where
  "TIMEZONE = 8 * 3600000"

section \<open>The data model (src/types/index.ts)\<close>

datatype TaskFrequency = weekly | monthly

datatype TaskPriority = High | Medium | Low

datatype TaskStatus = Overdue | DueToday | Upcoming | OK

text \<open>
  \<^verbatim>\<open>createdAt\<close> is declared mandatory, but \<^verbatim>\<open>calculateNextDueDate\<close> guards
  against a record without any baseline, so the field is optional in the model.
\<close>

record Task =
  task_id :: string
  title :: string
  description :: "string option"
  frequency :: TaskFrequency
  priority :: TaskPriority
  isActive :: bool
  assignedToAllHelpers :: bool
  assignees :: "string list"
  startDate :: "Date option"
  lastCompletedAt :: "Date option"
  createdAt :: "Date option"
  updatedAt :: Date
  nextDueAt :: "Date option"
  status :: "TaskStatus option"
  lastThreeCompletions :: "Date list option"

record CompletionLog =
  log_id :: string
  taskId :: string
  completedAt :: Date
  completedBy :: string
  completedByName :: "string option"
  log_note :: "string option"
  photos :: "string list"
  undoUntil :: Date
  log_createdAt :: Date

section \<open>Due dates and status (src/utils/date.ts)\<close>

text \<open>\<^verbatim>\<open>getHKTime\<close>; \<open>clock\<close> is the reading of \<^verbatim>\<open>new Date()\<close>.\<close>

definition getHKTime :: "int \<Rightarrow> Date \<Rightarrow> Date" where
  "getHKTime host clock = toZonedTime host clock TIMEZONE"

definition toHKTime :: "int \<Rightarrow> Date \<Rightarrow> Date" where
  "toHKTime host d = toZonedTime host d TIMEZONE"

text \<open>
  \<^verbatim>\<open>task.lastCompletedAt || task.startDate || task.createdAt\<close>: a Date object is
  always truthy, so \<^verbatim>\<open>||\<close> passes over absent fields only.
\<close>

definition baselineOf :: "'a Task_scheme \<Rightarrow> Date option" where
  "baselineOf task =
     (case lastCompletedAt task of
        Some d \<Rightarrow> Some d
      | None \<Rightarrow> (case startDate task of Some d \<Rightarrow> Some d | None \<Rightarrow> createdAt task))"

text \<open>
  The last \<^verbatim>\<open>return undefined\<close> of the source is for a frequency that is neither
  weekly nor monthly; the type \<^verbatim>\<open>TaskFrequency\<close> has no such value.
\<close>

definition calculateNextDueDate :: "int \<Rightarrow> 'a Task_scheme \<Rightarrow> Date option" where
  "calculateNextDueDate host task =
     (case baselineOf task of
        None \<Rightarrow> None
      | Some baseline \<Rightarrow>
          (let baselineDate = startOfDay host baseline
           in case frequency task of
                weekly \<Rightarrow> Some (addDays host baselineDate 7)
              | monthly \<Rightarrow> Some (addMonths host baselineDate 1)))"

definition calculateTaskStatus :: "int \<Rightarrow> Date \<Rightarrow> 'a Task_scheme \<Rightarrow> TaskStatus" where
  "calculateTaskStatus host clock task =
     (case calculateNextDueDate host task of
        None \<Rightarrow> OK
      | Some nextDue \<Rightarrow>
          (let now = getHKTime host clock;
               today = startOfDay host now;
               nextDueDay = startOfDay host nextDue
           in if isAfter today nextDueDay then Overdue
              else if isSameDay host today nextDueDay then DueToday
              else
                let diffDays = differenceInDays host nextDueDay today
                in if frequency task = weekly \<and> diffDays \<le> 3 then Upcoming
                   else if frequency task = monthly \<and> diffDays \<le> 5 then Upcoming
                   else OK))"

section \<open>The store (src/db/index.ts)\<close>

text \<open>
  An IndexedDB object store holds at most one record per key; \<^verbatim>\<open>put\<close> inserts
  or replaces by key and \<^verbatim>\<open>delete\<close> removes by key (a missing key is not an
  error). The model keeps each object store as the list of its records. IndexedDB hands
  records out in key order; the functions modelled here only filter them, sort them by
  completion time or read their time stamps, so the model keeps insertion order.
  Failures of the storage engine are not modelled.
\<close>

definition putRecord :: "('a \<Rightarrow> string) \<Rightarrow> 'a \<Rightarrow> 'a list \<Rightarrow> 'a list" where
  "putRecord key x xs =
     (if key x \<in> set (map key xs) then map (\<lambda>y. if key y = key x then x else y) xs
      else xs @ [x])"

definition deleteRecord :: "('a \<Rightarrow> string) \<Rightarrow> string \<Rightarrow> 'a list \<Rightarrow> 'a list" where
  "deleteRecord key k xs = filter (\<lambda>y. key y \<noteq> k) xs"

record Store =
  tasks :: "Task list"
  completionLogs :: "CompletionLog list"

text \<open>
  \<^verbatim>\<open>updateTask\<close> stamps the object it is given before storing it, so the caller's
  task carries the new \<^verbatim>\<open>updatedAt\<close> too; the model returns it with the store.
  \<open>stamp\<close> is the reading of \<^verbatim>\<open>new Date()\<close>.
\<close>

definition updateTask :: "Date \<Rightarrow> Store \<Rightarrow> Task \<Rightarrow> Store \<times> Task" where
  "updateTask stamp st task =
     (let task' = task\<lparr>updatedAt := stamp\<rparr>
      in (st\<lparr>tasks := putRecord task_id task' (tasks st)\<rparr>, task'))"

definition createCompletionLog :: "Store \<Rightarrow> CompletionLog \<Rightarrow> Store" where
  "createCompletionLog st log =
     st\<lparr>completionLogs := putRecord log_id log (completionLogs st)\<rparr>"

definition getCompletionLogsByTask :: "Store \<Rightarrow> string \<Rightarrow> CompletionLog list" where
  "getCompletionLogsByTask st tid = filter (\<lambda>l. taskId l = tid) (completionLogs st)"

definition deleteCompletionLog :: "Store \<Rightarrow> string \<Rightarrow> Store" where
  "deleteCompletionLog st lid =
     st\<lparr>completionLogs := deleteRecord log_id lid (completionLogs st)\<rparr>"

text \<open>\<^verbatim>\<open>database.delete('tasks', id)\<close>, the first request of \<^verbatim>\<open>deleteTask\<close>.\<close>

definition deleteTaskRow :: "Store \<Rightarrow> string \<Rightarrow> Store" where
  "deleteTaskRow st tid = st\<lparr>tasks := deleteRecord task_id tid (tasks st)\<rparr>"

text \<open>
  \<^verbatim>\<open>deleteTask\<close>: the task row goes first; then the logs of the task are read and
  deleted one by one, each in a request of its own.
\<close>

definition deleteTask :: "Store \<Rightarrow> string \<Rightarrow> Store" where
  "deleteTask st tid =
     (let st1 = deleteTaskRow st tid;
          logs = getCompletionLogsByTask st1 tid
      in foldl (\<lambda>s log. deleteCompletionLog s (log_id log)) st1 logs)"

text \<open>The store after each request of a loop of requests, the start included.\<close>

fun requestStates :: "('s \<Rightarrow> 'a \<Rightarrow> 's) \<Rightarrow> 's \<Rightarrow> 'a list \<Rightarrow> 's list" where
  "requestStates f s [] = [s]"
| "requestStates f s (x # xs) = s # requestStates f (f s x) xs"

text \<open>
  The stores that \<^verbatim>\<open>deleteTask\<close> passes through: the store it starts from, the
  store after the task row is deleted, and the store after each log is deleted.
\<close>

definition deleteTaskStates :: "Store \<Rightarrow> string \<Rightarrow> Store list" where
  "deleteTaskStates st tid =
     (let st1 = deleteTaskRow st tid;
          logs = getCompletionLogsByTask st1 tid
      in st # requestStates (\<lambda>s log. deleteCompletionLog s (log_id log)) st1 logs)"

section \<open>Task helpers (utils/taskHelpers.ts)\<close>

text \<open>
  \<^verbatim>\<open>Array.prototype.sort\<close> with a comparator is stable (ECMAScript 2019): an
  element stays behind every earlier element that the comparator does not put after it.
  For a comparator that compares keys the result is determined; it is computed here by
  insertion from the right.
\<close>

fun insertSorted :: "('a \<Rightarrow> 'a \<Rightarrow> int) \<Rightarrow> 'a \<Rightarrow> 'a list \<Rightarrow> 'a list" where
  "insertSorted cmp x [] = [x]"
| "insertSorted cmp x (y # ys) =
     (if cmp x y \<le> 0 then x # y # ys else y # insertSorted cmp x ys)"

definition arraySort :: "('a \<Rightarrow> 'a \<Rightarrow> int) \<Rightarrow> 'a list \<Rightarrow> 'a list" where
  "arraySort cmp xs = foldr (insertSorted cmp) xs []"

text \<open>The comparator \<^verbatim>\<open>(a, b) => b.completedAt - a.completedAt\<close>: latest first.\<close>

definition byCompletedAtDesc :: "CompletionLog \<Rightarrow> CompletionLog \<Rightarrow> int" where
  "byCompletedAtDesc a b = completedAt b - completedAt a"

definition getLastThreeCompletionDates :: "Store \<Rightarrow> string \<Rightarrow> Date list" where
  "getLastThreeCompletionDates st tid =
     (let logs = getCompletionLogsByTask st tid
      in map completedAt (take 3 (arraySort byCompletedAtDesc logs)))"

text \<open>\<open>clock\<close> is the clock reading of the \<^verbatim>\<open>getHKTime()\<close> call in the status.\<close>

definition enrichTask :: "int \<Rightarrow> Date \<Rightarrow> Store \<Rightarrow> Task \<Rightarrow> Task" where
  "enrichTask host clock st task =
     (let enriched1 = task\<lparr>nextDueAt := calculateNextDueDate host task\<rparr>;
          enriched2 = enriched1\<lparr>status := Some (calculateTaskStatus host clock enriched1)\<rparr>
      in enriched2\<lparr>lastThreeCompletions :=
                     Some (getLastThreeCompletionDates st (task_id task))\<rparr>)"

text \<open>
  \<^verbatim>\<open>markTaskComplete\<close> reads the clock three times (for the completion time, in
  the status of the enrichment, in \<^verbatim>\<open>updateTask\<close>): \<open>clock\<close>, \<open>clock2\<close> and
  \<open>stamp\<close>. \<open>newId\<close> stands for the identifier built from \<^verbatim>\<open>Date.now()\<close> and
  \<^verbatim>\<open>Math.random()\<close>.
\<close>

definition markTaskComplete ::
  "int \<Rightarrow> Date \<Rightarrow> Date \<Rightarrow> Date \<Rightarrow> string \<Rightarrow> Store \<Rightarrow> Task \<Rightarrow> string \<Rightarrow> string
    \<Rightarrow> string option \<Rightarrow> string list \<Rightarrow> Store \<times> Task \<times> CompletionLog" where
  "markTaskComplete host clock clock2 stamp newId st task user userName nt phs =
     (let now = getHKTime host clock;
          until = now + 5 * 60 * 1000;
          log = \<lparr> log_id = newId, taskId = task_id task, completedAt = now,
                  completedBy = user, completedByName = Some userName, log_note = nt,
                  photos = phs, undoUntil = until, log_createdAt = now \<rparr>;
          st1 = createCompletionLog st log;
          updatedTask = task\<lparr>lastCompletedAt := Some now\<rparr>;
          enriched = enrichTask host clock2 st1 updatedTask;
          (st2, enriched') = updateTask stamp st1 enriched
      in (st2, enriched', log))"

definition undoTaskCompletion ::
  "int \<Rightarrow> Date \<Rightarrow> Date \<Rightarrow> Store \<Rightarrow> Task \<Rightarrow> string \<Rightarrow> Store \<times> Task" where
  "undoTaskCompletion host clock stamp st task logId =
     (let st1 = deleteCompletionLog st logId;
          remainingLogs = getCompletionLogsByTask st1 (task_id task);
          lastCompletion =
            (if length remainingLogs > 0
             then Some (completedAt (arraySort byCompletedAtDesc remainingLogs ! 0))
             else None);
          updatedTask = task\<lparr>lastCompletedAt := lastCompletion\<rparr>;
          enriched = enrichTask host clock st1 updatedTask
      in updateTask stamp st1 enriched)"

text \<open>\<^verbatim>\<open>Array.prototype.includes\<close>.\<close>

definition includesElem :: "'a list \<Rightarrow> 'a \<Rightarrow> bool" where
  "includesElem xs x = (x \<in> set xs)"

definition filterTasksByAssignee :: "Task list \<Rightarrow> string \<Rightarrow> bool \<Rightarrow> Task list" where
  "filterTasksByAssignee ts userId isOwner =
     (if isOwner then ts
      else filter (\<lambda>task. assignedToAllHelpers task \<or> includesElem (assignees task) userId) ts)"

definition statusOrder :: "TaskStatus \<Rightarrow> int" where
  "statusOrder s = (case s of Overdue \<Rightarrow> 0 | DueToday \<Rightarrow> 1 | Upcoming \<Rightarrow> 2 | OK \<Rightarrow> 3)"

text \<open>\<^verbatim>\<open>a.status || 'OK'\<close>: a status that is not set counts as OK.\<close>

definition statusOrOK :: "Task \<Rightarrow> TaskStatus" where
  "statusOrOK a = (case status a of None \<Rightarrow> OK | Some s \<Rightarrow> s)"

definition byStatus :: "Task \<Rightarrow> Task \<Rightarrow> int" where
  "byStatus a b = statusOrder (statusOrOK a) - statusOrder (statusOrOK b)"

definition sortTasksByStatus :: "Task list \<Rightarrow> Task list" where
  "sortTasksByStatus ts = arraySort byStatus ts"

record StatusGroups =
  groupOverdue :: "Task list"
  groupDueToday :: "Task list"
  groupUpcoming :: "Task list"
  groupOK :: "Task list"

definition groupTasksByStatus :: "Task list \<Rightarrow> StatusGroups" where
  "groupTasksByStatus ts =
     \<lparr> groupOverdue = filter (\<lambda>t. status t = Some Overdue) ts,
       groupDueToday = filter (\<lambda>t. status t = Some DueToday) ts,
       groupUpcoming = filter (\<lambda>t. status t = Some Upcoming) ts,
       groupOK = filter (\<lambda>t. status t = Some OK) ts \<rparr>"

section \<open>Notions of the specification\<close>

text \<open>Length of month \<open>m\<close> (0 = January) of year \<open>y\<close>, and the month after a month.\<close>

definition DaysInMonth :: "int \<Rightarrow> int \<Rightarrow> int" where
  "DaysInMonth y m =
     (if m = 1 then 28 + leapDays y
      else if m = 3 \<or> m = 5 \<or> m = 8 \<or> m = 10 then 30
      else 31)"

definition nextMonth :: "int \<times> int \<Rightarrow> int \<times> int" where
  "nextMonth ym = (if snd ym = 11 then (fst ym + 1, 0) else (fst ym, snd ym + 1))"


text \<open>
  The baseline as the specification words it (section 4.1): the last completion if
  present, else the start date if present, else the creation date.
\<close>

definition specBaseline :: "'a Task_scheme \<Rightarrow> Date option" where
  "specBaseline task =
     (if lastCompletedAt task \<noteq> None then lastCompletedAt task
      else if startDate task \<noteq> None then startDate task
      else createdAt task)"


text \<open>Midnight of the calendar day of the instant \<open>d\<close> in the zone of offset \<open>tz\<close>.\<close>

definition startOfDayIn :: "int \<Rightarrow> Date \<Rightarrow> Date" where
  "startOfDayIn tz d = d - (d + tz) mod msPerDay"

text \<open>
  The latest completion time among a list of logs, absent for the empty list; a task is
  consistent with the store when its \<^verbatim>\<open>lastCompletedAt\<close> is the latest
  completion time of the logs stored for it.
\<close>

fun latestCompletion :: "CompletionLog list \<Rightarrow> Date option" where
  "latestCompletion [] = None"
| "latestCompletion (l # ls) =
     (case latestCompletion ls of
        None \<Rightarrow> Some (completedAt l)
      | Some m \<Rightarrow> Some (max (completedAt l) m))"

definition consistentWithLogs :: "Store \<Rightarrow> Task \<Rightarrow> bool" where
  "consistentWithLogs st task =
     (lastCompletedAt task = latestCompletion (getCompletionLogsByTask st (task_id task)))"

definition hasLog :: "Store \<Rightarrow> string \<Rightarrow> bool" where
  "hasLog st lid = (lid \<in> set (map log_id (completionLogs st)))"

definition hasTask :: "Store \<Rightarrow> string \<Rightarrow> bool" where
  "hasTask st tid = (tid \<in> set (map task_id (tasks st)))"

text \<open>
  "The logs are deleted first, or atomically with the task": none of the stores that the
  operation passes through has lost the task row while logs of the task remain.
\<close>

definition logsFirstOrAtomic :: "Store list \<Rightarrow> string \<Rightarrow> bool" where
  "logsFirstOrAtomic states tid =
     list_all (\<lambda>s. hasTask s tid \<or> getCompletionLogsByTask s tid = []) states"

text \<open>
  The priority rank of section 4.5 (the table that the Reminders page uses in a sort of
  its own; \<^verbatim>\<open>sortTasksByStatus\<close> has none) and the order "status rank first,
  priority rank second".
\<close>

definition priorityRank :: "TaskPriority \<Rightarrow> int" where
  "priorityRank p = (case p of High \<Rightarrow> 0 | Medium \<Rightarrow> 1 | Low \<Rightarrow> 2)"

definition statusRank :: "Task \<Rightarrow> int" where
  "statusRank t = statusOrder (statusOrOK t)"

definition statusThenPriority :: "Task \<Rightarrow> Task \<Rightarrow> bool" where
  "statusThenPriority a b =
     (statusRank a < statusRank b
      \<or> (statusRank a = statusRank b \<and> priorityRank (priority a) \<le> priorityRank (priority b)))"

definition orderedByStatusThenPriority :: "Task list \<Rightarrow> bool" where
  "orderedByStatusThenPriority ts = sorted_wrt statusThenPriority ts"

text \<open>A task without a status, given the status OK.\<close>

definition defaultOK :: "Task \<Rightarrow> Task" where
  "defaultOK t = (if status t = None then t\<lparr>status := Some OK\<rparr> else t)"

section \<open>Example data\<close>

text \<open>
  Time values of the examples: 1706668200000 is 2024-01-31 10:30 in Hong Kong,
  1704139200000 is 2024-01-01 20:00 UTC (2024-01-02 04:00 in Hong Kong). The offsets
  28800000 and 32400000 are UTC+8 and UTC+9, the offset 0 is UTC.
\<close>

definition choreTask :: Task where
  "choreTask =
     \<lparr> task_id = ''task-7'', title = ''Vacuum'', description = None,
       frequency = weekly, priority = Medium, isActive = True,
       assignedToAllHelpers = True, assignees = [], startDate = None,
       lastCompletedAt = None, createdAt = Some 1700000000000,
       updatedAt = 1700000000000, nextDueAt = None, status = None,
       lastThreeCompletions = None \<rparr>"



definition seededTask :: Task where
  "seededTask = choreTask\<lparr>startDate := Some 1704139200000, createdAt := Some 1704139200000\<rparr>"

definition lowTask :: Task where
  "lowTask = choreTask\<lparr>task_id := ''task-low'', priority := Low, status := Some OK\<rparr>"

definition highTask :: Task where
  "highTask = choreTask\<lparr>task_id := ''task-high'', priority := High, status := Some OK\<rparr>"

definition overdueTask :: Task where
  "overdueTask = choreTask\<lparr>task_id := ''task-o'', status := Some Overdue\<rparr>"

definition privateTask :: Task where
  "privateTask = choreTask\<lparr>task_id := ''task-p'', assignedToAllHelpers := False,
     assignees := [''helper-2'']\<rparr>"

definition emptyStore :: Store where
  "emptyStore = \<lparr> tasks = [choreTask], completionLogs = [] \<rparr>"

text \<open>
  Two completions of the same task, the first on a host in the zone UTC+8, the second
  half an hour later on a host set to the zone UTC+9.
\<close>

definition firstCompletion :: "Store \<times> Task \<times> CompletionLog" where
  "firstCompletion =
     markTaskComplete 28800000 1706668200000 1706668200000 1706668200000 ''log-a''
       emptyStore choreTask ''helper-1'' ''Helper'' None []"

definition secondCompletion :: "Store \<times> Task \<times> CompletionLog" where
  "secondCompletion =
     markTaskComplete 32400000 1706670000000 1706670000000 1706670000000 ''log-b''
       (fst firstCompletion) (fst (snd firstCompletion)) ''helper-1'' ''Helper'' None []"

text \<open>A store with two tasks, three logs of the first and one log of the second.\<close>

definition logOf :: "string \<Rightarrow> string \<Rightarrow> Date \<Rightarrow> CompletionLog" where
  "logOf lid tid at =
     \<lparr> log_id = lid, taskId = tid, completedAt = at, completedBy = ''helper-1'',
       completedByName = Some ''Helper'', log_note = None, photos = [],
       undoUntil = at + 300000, log_createdAt = at \<rparr>"

definition threeLogStore :: Store where
  "threeLogStore =
     \<lparr> tasks = [choreTask, privateTask],
       completionLogs = [logOf ''log-1'' ''task-7'' 1706668200000,
                         logOf ''log-2'' ''task-p'' 1706668300000,
                         logOf ''log-3'' ''task-7'' 1707273000000,
                         logOf ''log-4'' ''task-7'' 1707877800000] \<rparr>"

section \<open>The calendar: years, months and days\<close>

subsection \<open>Integer division by a positive constant\<close>

lemma div_lo: "0 < (k::int) \<Longrightarrow> k * (a div k) \<le> a"
  using pos_mod_sign[of k a] mult_div_mod_eq[of k a] by linarith

lemma div_hi: "0 < (k::int) \<Longrightarrow> a < k * (a div k) + k"
  using pos_mod_bound[of k a] mult_div_mod_eq[of k a] by linarith

lemma div_succ:
  assumes k: "0 < (k::int)"
  shows "(a + 1) div k = (if (a + 1) mod k = 0 then a div k + 1 else a div k)"
proof -
  define q where "q = (a + 1) div k"
  define r where "r = (a + 1) mod k"
  have e: "a + 1 = k * q + r" unfolding q_def r_def by simp
  have r: "0 \<le> r" "r < k" unfolding r_def using k by simp_all
  show ?thesis
  proof (cases "r = 0")
    case True
    have "a = k * (q - 1) + (k - 1)" using e True by (simp add: algebra_simps)
    then have "a div k = q - 1" by (rule int_div_pos_eq) (use k in simp_all)
    then show ?thesis using True unfolding q_def r_def by simp
  next
    case False
    have "a = k * q + (r - 1)" using e by simp
    then have "a div k = q" by (rule int_div_pos_eq) (use r False in simp_all)
    then show ?thesis using False unfolding q_def r_def by simp
  qed
qed

subsection \<open>Years\<close>

lemma leap_mod:
  "(y - 1968) mod 4 = y mod (4::int)"
  "(y - 1900) mod 100 = y mod (100::int)"
  "(y - 1600) mod 400 = y mod (400::int)"
  using mod_mult_self2[of y 4 "- 492"] mod_mult_self2[of y 100 "- 19"]
    mod_mult_self2[of y 400 "- 4"]
  by simp_all

lemma leap_dvd:
  "y mod 400 = 0 \<Longrightarrow> y mod (100::int) = 0"
  "y mod 100 = 0 \<Longrightarrow> y mod (4::int) = 0"
proof -
  have "(100::int) dvd 400" "(4::int) dvd 100" by simp_all
  then show "y mod 400 = 0 \<Longrightarrow> y mod (100::int) = 0" "y mod 100 = 0 \<Longrightarrow> y mod (4::int) = 0"
    by (meson dvd_trans mod_eq_0_iff_dvd)+
qed

lemma DayFromYear_Suc: "DayFromYear (y + 1) = DayFromYear y + DaysInYear y"
proof -
  have a: "(y + 1 - 1969) div 4 =
      (if y mod 4 = 0 then (y - 1969) div 4 + 1 else (y - 1969) div 4)"
    using div_succ[of 4 "y - 1969"] leap_mod(1)[of y] by (simp add: algebra_simps)
  have b: "(y + 1 - 1901) div 100 =
      (if y mod 100 = 0 then (y - 1901) div 100 + 1 else (y - 1901) div 100)"
    using div_succ[of 100 "y - 1901"] leap_mod(2)[of y] by (simp add: algebra_simps)
  have c: "(y + 1 - 1601) div 400 =
      (if y mod 400 = 0 then (y - 1601) div 400 + 1 else (y - 1601) div 400)"
    using div_succ[of 400 "y - 1601"] leap_mod(3)[of y] by (simp add: algebra_simps)
  show ?thesis
    unfolding DayFromYear_def DaysInYear_def isLeapYear_def a b c
    using leap_dvd[of y] by (auto simp: algebra_simps)
qed

lemma DayFromYear_upper: "400 * DayFromYear y \<le> 146097 * y - 287810501"
  using div_lo[of 4 "y - 1969"] div_hi[of 100 "y - 1901"] div_lo[of 400 "y - 1601"]
  unfolding DayFromYear_def by (simp add: algebra_simps)

lemma DayFromYear_lower: "146097 * y - 287811596 \<le> 400 * DayFromYear y"
  using div_hi[of 4 "y - 1969"] div_lo[of 100 "y - 1901"] div_hi[of 400 "y - 1601"]
  unfolding DayFromYear_def by (simp add: algebra_simps)

lemma DayFromYear_less: "y < y' \<Longrightarrow> DayFromYear y < DayFromYear y'"
  using DayFromYear_upper[of y] DayFromYear_lower[of y'] by linarith

lemma DayFromYear_mono: "y \<le> y' \<Longrightarrow> DayFromYear y \<le> DayFromYear y'"
  using DayFromYear_less[of y y'] by (cases "y = y'") simp_all

lemma YearFromDay_bracket:
  "DayFromYear (YearFromDay z) \<le> z \<and> z < DayFromYear (YearFromDay z + 1)"
proof -
  define k where "k = (400 * z) div 146097"
  define y0 where "y0 = 1970 + k - 1"
  define y2 where "y2 = 1970 + k + 1 + 1"
  have k: "146097 * k \<le> 400 * z" "400 * z < 146097 * k + 146097"
    unfolding k_def by (rule div_lo div_hi, simp)+
  have y: "146097 * y0 = 146097 * k + 287664993" "146097 * y2 = 146097 * k + 288103284"
    unfolding y0_def y2_def by simp_all
  have lo: "DayFromYear y0 \<le> z"
    using DayFromYear_upper[of y0] k y by linarith
  have hi: "z < DayFromYear y2"
    using DayFromYear_lower[of y2] k y by linarith
  show ?thesis
    using lo hi unfolding YearFromDay_def k_def[symmetric] Let_def y0_def y2_def by auto
qed

lemma YearFromDay_unique:
  assumes "DayFromYear y \<le> z" "z < DayFromYear (y + 1)"
  shows "YearFromDay z = y"
proof -
  let ?y = "YearFromDay z"
  have b: "DayFromYear ?y \<le> z" "z < DayFromYear (?y + 1)"
    using YearFromDay_bracket[of z] by simp_all
  have "DayFromYear ?y < DayFromYear (y + 1)" using b(1) assms(2) by linarith
  then have 1: "?y < y + 1" using DayFromYear_mono[of "y + 1" ?y] by linarith
  have "DayFromYear y < DayFromYear (?y + 1)" using b(2) assms(1) by linarith
  then have 2: "y < ?y + 1" using DayFromYear_mono[of "?y + 1" y] by linarith
  from 1 2 show ?thesis by linarith
qed

lemma DayWithinYear_range: "0 \<le> DayWithinYear z \<and> DayWithinYear z < DaysInYear (YearFromDay z)"
  using YearFromDay_bracket[of z] DayFromYear_Suc[of "YearFromDay z"]
  unfolding DayWithinYear_def by linarith

subsection \<open>Months\<close>

lemma month_cases:
  assumes "0 \<le> (m::int)" "m < 12"
  obtains "m = 0" | "m = 1" | "m = 2" | "m = 3" | "m = 4" | "m = 5"
    | "m = 6" | "m = 7" | "m = 8" | "m = 9" | "m = 10" | "m = 11"
proof -
  have "m = 0 \<or> m = 1 \<or> m = 2 \<or> m = 3 \<or> m = 4 \<or> m = 5
      \<or> m = 6 \<or> m = 7 \<or> m = 8 \<or> m = 9 \<or> m = 10 \<or> m = 11"
    using assms by presburger
  then show thesis using that by blast
qed

lemma leapDays_range: "leapDays y = 0 \<or> leapDays y = 1"
  by (simp add: leapDays_def)

lemma DaysInYear_leapDays: "DaysInYear y = 365 + leapDays y"
  by (simp add: DaysInYear_def leapDays_def)

lemma MonthFromDay_range: "0 \<le> MonthFromDay z \<and> MonthFromDay z < 12"
  by (simp add: MonthFromDay_def Let_def)

lemma DateFromDay_range:
  "1 \<le> DateFromDay z \<and> DateFromDay z \<le> DaysInMonth (YearFromDay z) (MonthFromDay z)"
  using DayWithinYear_range[of z] leapDays_range[of "YearFromDay z"]
  unfolding DateFromDay_def MonthFromDay_def monthStart_def DaysInMonth_def Let_def
    DaysInYear_leapDays
  by (auto split: if_splits)

lemma MakeDay_in_year:
  "0 \<le> m \<Longrightarrow> m < 12 \<Longrightarrow> MakeDay y m dt = DayFromYear y + monthStart y m + dt - 1"
  by (simp add: MakeDay_def Let_def)

lemma MakeDay_civil:
  "MakeDay (YearFromDay z) (MonthFromDay z) dt = z - DateFromDay z + dt"
  using MonthFromDay_range[of z]
  by (simp add: MakeDay_in_year DateFromDay_def DayWithinYear_def)

lemma monthStart_range:
  assumes "0 \<le> m" "m < 12"
  shows "0 \<le> monthStart y m \<and> monthStart y m + DaysInMonth y m \<le> DaysInYear y"
  using assms(1,2) leapDays_range[of y]
  by (cases m rule: month_cases) (auto simp: monthStart_def DaysInMonth_def DaysInYear_leapDays)

lemma monthStart_Suc:
  assumes "0 \<le> m" "m < 11"
  shows "monthStart y (m + 1) = monthStart y m + DaysInMonth y m"
proof -
  have "m < 12" using assms by simp
  with assms(1) show ?thesis using assms(2)
    by (cases m rule: month_cases) (simp_all add: monthStart_def DaysInMonth_def)
qed

lemma monthStart_last: "monthStart y 11 + DaysInMonth y 11 = DaysInYear y"
  by (simp add: monthStart_def DaysInMonth_def DaysInYear_leapDays)

lemma civil_MakeDay:
  assumes m: "0 \<le> m" "m < 12" and d: "1 \<le> d" "d \<le> DaysInMonth y m"
  shows "YearFromDay (MakeDay y m d) = y"
    and "MonthFromDay (MakeDay y m d) = m"
    and "DateFromDay (MakeDay y m d) = d"
proof -
  let ?z = "MakeDay y m d"
  have z: "?z = DayFromYear y + monthStart y m + d - 1" using m by (rule MakeDay_in_year)
  have r: "0 \<le> monthStart y m" "monthStart y m + DaysInMonth y m \<le> DaysInYear y"
    using monthStart_range[OF m, of y] by simp_all
  show Y: "YearFromDay ?z = y"
    by (rule YearFromDay_unique) (use z r d DayFromYear_Suc[of y] in linarith)+
  have W: "DayWithinYear ?z = monthStart y m + d - 1"
    unfolding DayWithinYear_def Y using z by simp
  show M: "MonthFromDay ?z = m"
    unfolding MonthFromDay_def Y W Let_def
    using m(1,2) d leapDays_range[of y]
    by (cases m rule: month_cases) (auto simp: monthStart_def DaysInMonth_def)
  show "DateFromDay ?z = d"
    unfolding DateFromDay_def Y W M by simp
qed

text \<open>Day 0 of the month after \<open>(y, m)\<close> is the last day of \<open>(y, m)\<close>.\<close>

lemma MakeDay_day_zero:
  assumes m: "0 \<le> m" "m < 12"
  shows "MakeDay y (m + 1) 0 = MakeDay y m (DaysInMonth y m)"
proof (cases "m = 11")
  case True
  have "MakeDay y 12 0 = DayFromYear (y + 1) - 1"
    by (simp add: MakeDay_def Let_def monthStart_def)
  also have "\<dots> = MakeDay y 11 (DaysInMonth y 11)"
    using monthStart_last[of y] DayFromYear_Suc[of y] by (simp add: MakeDay_in_year)
  finally show ?thesis using True by simp
next
  case False
  then have m': "m < 11" using m by simp
  then have "0 \<le> m + 1" "m + 1 < 12" using m by simp_all
  then show ?thesis using monthStart_Suc[OF m(1) m', of y] m
    by (simp add: MakeDay_in_year)
qed

lemma nextMonth_range:
  "0 \<le> m \<Longrightarrow> m < 12 \<Longrightarrow> 0 \<le> snd (nextMonth (y, m)) \<and> snd (nextMonth (y, m)) < 12"
  by (simp add: nextMonth_def)

lemma DaysInMonth_pos: "28 \<le> DaysInMonth y m"
  using leapDays_range[of y] by (auto simp: DaysInMonth_def)

subsection \<open>Date methods\<close>

lemma msPerDay_pos: "0 < msPerDay"
  by (simp add: msPerDay_def)

lemma TimeWithinDay_range: "0 \<le> TimeWithinDay t \<and> TimeWithinDay t < msPerDay"
  using msPerDay_pos by (simp add: TimeWithinDay_def)

lemma Day_MakeDate:
  assumes "0 \<le> tm" "tm < msPerDay"
  shows "Day (MakeDate z tm) = z" and "TimeWithinDay (MakeDate z tm) = tm"
proof -
  have e: "MakeDate z tm = msPerDay * z + tm" by (simp add: MakeDate_def)
  show "Day (MakeDate z tm) = z"
    unfolding Day_def using e assms by (rule int_div_pos_eq)
  show "TimeWithinDay (MakeDate z tm) = tm"
    unfolding TimeWithinDay_def using e assms by (rule int_mod_pos_eq)
qed

lemma MakeDate_Day: "MakeDate (Day t) (TimeWithinDay t) = t"
  by (simp add: MakeDate_def Day_def TimeWithinDay_def)

lemma LocalTime_UTC [simp]: "LocalTime host (UTC host t) = t"
  by (simp add: LocalTime_def UTC_def)

lemma startOfDay_eq: "startOfDay host d = d - (d + host) mod msPerDay"
proof -
  have "MakeDate (Day (d + host)) 0 = d + host - (d + host) mod msPerDay"
    using MakeDate_Day[of "d + host"] by (simp add: MakeDate_def TimeWithinDay_def)
  then show ?thesis
    by (simp add: startOfDay_def setHoursZero_def LocalTime_def UTC_def)
qed

lemma TimeWithinDay_startOfDay: "TimeWithinDay (LocalTime host (startOfDay host d)) = 0"
  using Day_MakeDate(2)[of 0 "Day (LocalTime host d)"] msPerDay_pos
  by (simp add: startOfDay_def setHoursZero_def)

lemma startOfDay_fixed_iff:
  "startOfDay host d = d \<longleftrightarrow> TimeWithinDay (LocalTime host d) = 0"
  by (simp add: startOfDay_eq TimeWithinDay_def LocalTime_def)

lemma startOfDay_idem: "startOfDay host (startOfDay host d) = startOfDay host d"
  using TimeWithinDay_startOfDay[of host d] by (simp add: startOfDay_fixed_iff)

lemma setDate_eq: "setDate host d dt = d + (dt - getDate host d) * msPerDay"
proof -
  let ?t = "LocalTime host d"
  have "MakeDate (Day ?t - DateFromDay (Day ?t) + dt) (TimeWithinDay ?t)
      = MakeDate (Day ?t) (TimeWithinDay ?t) + (dt - DateFromDay (Day ?t)) * msPerDay"
    by (simp add: MakeDate_def algebra_simps)
  then show ?thesis
    unfolding setDate_def Let_def MakeDay_civil getDate_def MakeDate_Day
    by (simp add: UTC_def LocalTime_def)
qed

lemma addDays_eq: "addDays host d n = d + n * msPerDay"
  by (simp add: addDays_def setDate_eq)

lemma startOfDay_add_days:
  "startOfDay host (d + n * msPerDay) = startOfDay host d + n * msPerDay"
proof -
  have "(d + n * msPerDay + host) mod msPerDay = (d + host) mod msPerDay"
    using mod_mult_self1[of "d + host" n msPerDay] by (simp add: algebra_simps)
  then show ?thesis by (simp add: startOfDay_eq)
qed



lemma MakeDay_after_next:
  assumes m: "0 \<le> m" "m < 12"
  shows "MakeDay y (m + 1 + 1) 0 =
         MakeDay (fst (nextMonth (y, m))) (snd (nextMonth (y, m)))
           (DaysInMonth (fst (nextMonth (y, m))) (snd (nextMonth (y, m))))"
proof (cases "m = 11")
  case True
  have "MakeDay y 13 0 = MakeDay (y + 1) (0 + 1) 0"
    by (simp add: MakeDay_def Let_def)
  also have "\<dots> = MakeDay (y + 1) 0 (DaysInMonth (y + 1) 0)"
    by (rule MakeDay_day_zero) simp_all
  finally show ?thesis using True by (simp add: nextMonth_def)
next
  case False
  then have "0 \<le> m + 1" "m + 1 < 12" using m by simp_all
  then have "MakeDay y (m + 1 + 1) 0 = MakeDay y (m + 1) (DaysInMonth y (m + 1))"
    by (rule MakeDay_day_zero)
  then show ?thesis using False by (simp add: nextMonth_def)
qed

lemma addMonths_one:
  fixes host d
  defines "z \<equiv> Day (LocalTime host d)"
  defines "ym \<equiv> nextMonth (YearFromDay z, MonthFromDay z)"
  defines "r \<equiv> addMonths host d 1"
  shows "getFullYear host r = fst ym"
    and "getMonth host r = snd ym"
    and "getDate host r = min (DateFromDay z) (DaysInMonth (fst ym) (snd ym))"
    and "TimeWithinDay (LocalTime host r) = TimeWithinDay (LocalTime host d)"
proof -
  let ?t = "LocalTime host d"
  let ?tod = "TimeWithinDay ?t"
  let ?y = "YearFromDay z" and ?m = "MonthFromDay z" and ?dd = "DateFromDay z"
  let ?y' = "fst ym" and ?m' = "snd ym"
  let ?dim = "DaysInMonth ?y' ?m'"
  have m: "0 \<le> ?m" "?m < 12" using MonthFromDay_range[of z] by simp_all
  have m': "0 \<le> ?m'" "?m' < 12" using nextMonth_range[OF m, of ?y] by (simp_all add: ym_def)
  have tod: "0 \<le> ?tod" "?tod < msPerDay" using TimeWithinDay_range[of ?t] by simp_all
  have dd: "1 \<le> ?dd" using DateFromDay_range[of z] by simp
  have dim: "1 \<le> ?dim" using DaysInMonth_pos[of ?y' ?m'] by simp
  define E where "E = setMonth host d (getMonth host d + 1 + 1) 0"
  have E: "E = UTC host (MakeDate (MakeDay ?y' ?m' ?dim) ?tod)"
    unfolding E_def setMonth_def Let_def getMonth_def z_def[symmetric]
    using MakeDay_after_next[OF m, of ?y] by (simp add: ym_def)
  have DE: "Day (LocalTime host E) = MakeDay ?y' ?m' ?dim"
    and TE: "TimeWithinDay (LocalTime host E) = ?tod"
    unfolding E using Day_MakeDate[OF tod] by simp_all
  have cE: "getFullYear host E = ?y'" "getMonth host E = ?m'" "getDate host E = ?dim"
    unfolding getFullYear_def getMonth_def getDate_def DE
    using civil_MakeDay[OF m' dim order_refl] by simp_all
  have r: "r = (if ?dd \<ge> ?dim then E
                else UTC host (MakeDate (MakeDay ?y' ?m' ?dd) ?tod))"
    unfolding r_def addMonths_def Let_def E_def[symmetric] cE setFullYear_def
    by (simp add: getDate_def z_def)
  have main: "getFullYear host r = fst ym \<and> getMonth host r = snd ym
      \<and> getDate host r = min (DateFromDay z) (DaysInMonth (fst ym) (snd ym))
      \<and> TimeWithinDay (LocalTime host r) = TimeWithinDay (LocalTime host d)"
  proof (cases "?dd \<ge> ?dim")
    case True
    then have "r = E" using r by simp
    with True cE TE show ?thesis by simp
  next
    case False
    then have lt: "?dd \<le> ?dim" by simp
    have r': "r = UTC host (MakeDate (MakeDay ?y' ?m' ?dd) ?tod)" using r False by simp
    have Dr: "Day (LocalTime host r) = MakeDay ?y' ?m' ?dd"
      and Tr: "TimeWithinDay (LocalTime host r) = ?tod"
      unfolding r' using Day_MakeDate[OF tod] by simp_all
    from False Tr show ?thesis
      unfolding getFullYear_def getMonth_def getDate_def Dr
      using civil_MakeDay[OF m' dd lt] by simp
  qed
  from main show "getFullYear host r = fst ym"
    and "getMonth host r = snd ym"
    and "getDate host r = min (DateFromDay z) (DaysInMonth (fst ym) (snd ym))"
    and "TimeWithinDay (LocalTime host r) = TimeWithinDay (LocalTime host d)"
    by simp_all
qed

section \<open>Due dates\<close>

lemma baselineOf_specBaseline: "baselineOf task = specBaseline task"
  by (auto simp: baselineOf_def specBaseline_def split: option.splits)


lemma calculateNextDueDate_weekly:
  "specBaseline t = Some b \<Longrightarrow> frequency t = weekly \<Longrightarrow>
     calculateNextDueDate host t = Some (startOfDay host b + 7 * msPerDay)"
  by (simp add: calculateNextDueDate_def baselineOf_specBaseline addDays_eq)

lemma calculateNextDueDate_midnight:
  assumes "calculateNextDueDate host t = Some r"
  shows "startOfDay host r = r"
proof -
  obtain b where b: "specBaseline t = Some b"
    using assms by (cases "specBaseline t") (simp_all add: calculateNextDueDate_def baselineOf_specBaseline)
  show ?thesis
  proof (cases "frequency t")
    case weekly
    then have "r = startOfDay host b + 7 * msPerDay"
      using assms calculateNextDueDate_weekly[OF b weekly, of host] by simp
    then show ?thesis
      using startOfDay_add_days[of host "startOfDay host b" 7] by (simp add: startOfDay_idem)
  next
    case monthly
    then have "r = addMonths host (startOfDay host b) 1"
      using assms b by (simp add: calculateNextDueDate_def baselineOf_specBaseline)
    then show ?thesis
      using addMonths_one(4)[of host "startOfDay host b"]
      by (simp add: startOfDay_fixed_iff TimeWithinDay_startOfDay)
  qed
qed

lemma startOfDay_getHKTime:
  "startOfDay host (getHKTime host c) = getHKTime host (startOfDayIn TIMEZONE c)"
  by (simp add: startOfDay_eq startOfDayIn_def getHKTime_def toZonedTime_def)

text \<open>
  A weekly task whose last completion \<^verbatim>\<open>markTaskComplete\<close> stored through
  \<^verbatim>\<open>getHKTime\<close> on the same host is due seven days after the Hong Kong midnight
  of the completion, in the representation of \<^verbatim>\<open>getHKTime\<close>.
\<close>

lemma nextDue_after_completion:
  assumes "lastCompletedAt task = Some (getHKTime host c)" "frequency task = weekly"
  shows "calculateNextDueDate host task
           = Some (getHKTime host (startOfDayIn TIMEZONE c + 7 * msPerDay))"
proof -
  have "specBaseline task = Some (getHKTime host c)"
    using assms(1) by (simp add: specBaseline_def)
  then have "calculateNextDueDate host task
               = Some (startOfDay host (getHKTime host c) + 7 * msPerDay)"
    using assms(2) by (rule calculateNextDueDate_weekly)
  also have "startOfDay host (getHKTime host c) + 7 * msPerDay
      = getHKTime host (startOfDayIn TIMEZONE c + 7 * msPerDay)"
    unfolding startOfDay_getHKTime by (simp add: getHKTime_def toZonedTime_def)
  finally show ?thesis .
qed


subsection \<open>The calendar at the example dates\<close>









section \<open>Sorting\<close>

lemma insertSorted_ne: "insertSorted cmp x ys \<noteq> []"
  by (cases ys) simp_all

lemma arraySort_Cons: "arraySort cmp (x # xs) = insertSorted cmp x (arraySort cmp xs)"
  by (simp add: arraySort_def)

lemma arraySort_Nil: "arraySort cmp [] = []"
  by (simp add: arraySort_def)

lemma arraySort_eq_Nil: "arraySort cmp xs = [] \<longleftrightarrow> xs = []"
  by (cases xs) (simp_all add: arraySort_Nil arraySort_Cons insertSorted_ne)

lemma insertSorted_insort_key:
  "insertSorted (\<lambda>a b. f a - f b) x ys = insort_key f x ys"
  by (induction ys) simp_all

lemma arraySort_sort_key: "arraySort (\<lambda>a b. f a - f b) xs = sort_key f xs"
  by (induction xs) (simp_all add: arraySort_def insertSorted_insort_key)

lemma byStatus_key: "byStatus = (\<lambda>a b. statusRank a - statusRank b)"
  by (intro ext) (simp add: byStatus_def statusRank_def)

lemma sortTasksByStatus_sort_key: "sortTasksByStatus ts = sort_key statusRank ts"
  by (simp add: sortTasksByStatus_def byStatus_key arraySort_sort_key)

lemma arraySort_map:
  assumes "\<And>x y. cmp (f x) (f y) = cmp x y"
  shows "arraySort cmp (map f xs) = map f (arraySort cmp xs)"
proof -
  have ins: "insertSorted cmp (f x) (map f ys) = map f (insertSorted cmp x ys)" for x ys
    by (induction ys) (simp_all add: assms)
  show ?thesis
    by (induction xs) (simp_all add: arraySort_def ins)
qed

lemma statusOrOK_defaultOK: "statusOrOK (defaultOK t) = statusOrOK t"
  by (simp add: statusOrOK_def defaultOK_def)

lemma insort_key_past:
  "\<forall>x\<in>set xs. f x < f a \<Longrightarrow> insort_key f a (xs @ ys) = xs @ insort_key f a ys"
  by (induction xs) auto

lemma insort_key_front:
  "\<forall>y\<in>set ys. f a \<le> f y \<Longrightarrow> insort_key f a ys = a # ys"
  by (cases ys) auto

lemma statusRank_cases:
  "statusRank t = (if status t = Some Overdue then 0
                   else if status t = Some DueToday then 1
                   else if status t = Some Upcoming then 2 else 3)"
  by (cases "status t"; simp add: statusRank_def statusOrOK_def statusOrder_def split: TaskStatus.splits)

lemma sortTasksByStatus_buckets:
  "sortTasksByStatus ts =
     filter (\<lambda>t. status t = Some Overdue) ts
     @ filter (\<lambda>t. status t = Some DueToday) ts
     @ filter (\<lambda>t. status t = Some Upcoming) ts
     @ filter (\<lambda>t. status t = Some OK \<or> status t = None) ts"
proof (induction ts)
  case Nil
  then show ?case by (simp add: sortTasksByStatus_sort_key)
next
  case (Cons a ts)
  let ?O = "filter (\<lambda>t. status t = Some Overdue) ts"
  let ?D = "filter (\<lambda>t. status t = Some DueToday) ts"
  let ?U = "filter (\<lambda>t. status t = Some Upcoming) ts"
  let ?K = "filter (\<lambda>t. status t = Some OK \<or> status t = None) ts"
  have s: "sortTasksByStatus (a # ts) = insort_key statusRank a (?O @ ?D @ ?U @ ?K)"
    using Cons.IH by (simp add: sortTasksByStatus_sort_key)
  have rO: "\<forall>x\<in>set ?O. statusRank x = 0" and rD: "\<forall>x\<in>set ?D. statusRank x = 1"
    and rU: "\<forall>x\<in>set ?U. statusRank x = 2" and rK: "\<forall>x\<in>set ?K. statusRank x = 3"
    by (auto simp: statusRank_cases)
  consider (o) "status a = Some Overdue" | (d) "status a = Some DueToday"
    | (u) "status a = Some Upcoming" | (k) "status a = Some OK \<or> status a = None"
    by (cases "status a") (auto intro: TaskStatus.exhaust)
  then show ?case
  proof cases
    case o
    then have ra: "statusRank a = 0" by (simp add: statusRank_cases)
    have "insort_key statusRank a (?O @ ?D @ ?U @ ?K) = a # (?O @ ?D @ ?U @ ?K)"
      by (rule insort_key_front) (use ra rO rD rU rK in auto)
    with s o show ?thesis by simp
  next
    case d
    then have ra: "statusRank a = 1" by (simp add: statusRank_cases)
    have "insort_key statusRank a (?O @ ?D @ ?U @ ?K) = ?O @ insort_key statusRank a (?D @ ?U @ ?K)"
      by (rule insort_key_past) (use ra rO in auto)
    also have "insort_key statusRank a (?D @ ?U @ ?K) = a # (?D @ ?U @ ?K)"
      by (rule insort_key_front) (use ra rD rU rK in auto)
    finally show ?thesis using s d by simp
  next
    case u
    then have ra: "statusRank a = 2" by (simp add: statusRank_cases)
    have "insort_key statusRank a ((?O @ ?D) @ ?U @ ?K) = (?O @ ?D) @ insort_key statusRank a (?U @ ?K)"
      by (rule insort_key_past) (use ra rO rD in auto)
    also have "insort_key statusRank a (?U @ ?K) = a # (?U @ ?K)"
      by (rule insort_key_front) (use ra rU rK in auto)
    finally show ?thesis using s u by simp
  next
    case k
    then have ra: "statusRank a = 3" by (auto simp: statusRank_cases)
    have "insort_key statusRank a ((?O @ ?D @ ?U) @ ?K) = (?O @ ?D @ ?U) @ insort_key statusRank a ?K"
      by (rule insort_key_past) (use ra rO rD rU in auto)
    also have "insort_key statusRank a ?K = a # ?K"
      by (rule insort_key_front) (use ra rK in auto)
    finally show ?thesis using s k by auto
  qed
qed

subsection \<open>The latest completion\<close>

lemma hd_insertSorted_desc:
  "completedAt (hd (insertSorted byCompletedAtDesc x ys)) =
     (case ys of [] \<Rightarrow> completedAt x | y # _ \<Rightarrow> max (completedAt x) (completedAt y))"
  by (cases ys) (auto simp: byCompletedAtDesc_def)

lemma latestCompletion_None: "latestCompletion ls = None \<longleftrightarrow> ls = []"
  by (cases ls) (simp_all split: option.splits)

lemma latestCompletion_Some: "ls \<noteq> [] \<Longrightarrow> \<exists>m. latestCompletion ls = Some m"
  by (cases ls) (auto split: option.splits)

lemma latestCompletion_sorted:
  "ls \<noteq> [] \<Longrightarrow> latestCompletion ls = Some (completedAt (hd (arraySort byCompletedAtDesc ls)))"
proof (induction ls)
  case Nil
  then show ?case by simp
next
  case (Cons l ls)
  show ?case
  proof (cases "ls = []")
    case True
    then show ?thesis by (simp add: arraySort_def)
  next
    case False
    then obtain y ys where s: "arraySort byCompletedAtDesc ls = y # ys"
      using arraySort_eq_Nil[of byCompletedAtDesc ls] by (cases "arraySort byCompletedAtDesc ls") auto
    have ih: "latestCompletion ls = Some (completedAt y)"
      using Cons.IH[OF False] s by simp
    have "completedAt (hd (arraySort byCompletedAtDesc (l # ls)))
        = max (completedAt l) (completedAt y)"
      unfolding arraySort_Cons s hd_insertSorted_desc by simp
    with ih show ?thesis by simp
  qed
qed

lemma first_of_sorted:
  "(if length ls > 0 then Some (completedAt (arraySort byCompletedAtDesc ls ! 0)) else None)
     = latestCompletion ls"
proof (cases "ls = []")
  case True
  then show ?thesis by simp
next
  case False
  then have "arraySort byCompletedAtDesc ls \<noteq> []" by (simp add: arraySort_eq_Nil)
  then have "arraySort byCompletedAtDesc ls ! 0 = hd (arraySort byCompletedAtDesc ls)"
    by (simp add: hd_conv_nth)
  with False show ?thesis by (simp add: latestCompletion_sorted)
qed

lemma latestCompletion_bound:
  "latestCompletion ls = Some m \<Longrightarrow> l \<in> set ls \<Longrightarrow> completedAt l \<le> m"
  by (induction ls arbitrary: m) (auto split: option.splits simp: latestCompletion_None)

lemma latestCompletion_mem:
  "latestCompletion ls = Some m \<Longrightarrow> \<exists>x\<in>set ls. completedAt x = m"
proof (induction ls arbitrary: m)
  case Nil
  then show ?case by simp
next
  case (Cons a ls)
  show ?case
  proof (cases "latestCompletion ls")
    case None
    with Cons.prems show ?thesis by simp
  next
    case (Some k)
    then obtain x where x: "x \<in> set ls" "completedAt x = k" using Cons.IH by blast
    from Some Cons.prems have "m = max (completedAt a) k" by simp
    then have "m = completedAt a \<or> m = k" by (simp add: max_def)
    with x show ?thesis by auto
  qed
qed

lemma latestCompletion_is_now:
  assumes "l \<in> set ls" "completedAt l = now" "\<forall>x\<in>set ls. completedAt x \<le> now"
  shows "latestCompletion ls = Some now"
proof -
  have "ls \<noteq> []" using assms(1) by auto
  then obtain m where m: "latestCompletion ls = Some m"
    using latestCompletion_None[of ls] by (cases "latestCompletion ls") auto
  have "now \<le> m" using latestCompletion_bound[OF m assms(1)] assms(2) by simp
  moreover have "m \<le> now" using latestCompletion_mem[OF m] assms(3) by auto
  ultimately show ?thesis using m by simp
qed

section \<open>Store operations\<close>

lemma set_putRecord: "set (putRecord key x xs) \<subseteq> insert x (set xs)"
  by (auto simp: putRecord_def)

lemma putRecord_mem: "x \<in> set (putRecord key x xs)"
  by (auto simp: putRecord_def)

lemma putRecord_fresh: "key x \<notin> set (map key xs) \<Longrightarrow> putRecord key x xs = xs @ [x]"
  by (simp add: putRecord_def)

lemma deleteRecord_fresh: "k \<notin> set (map key xs) \<Longrightarrow> deleteRecord key k xs = xs"
  by (induction xs) (auto simp: deleteRecord_def)

lemma deleteRecord_gone: "k \<notin> set (map key (deleteRecord key k xs))"
  by (auto simp: deleteRecord_def)

lemma put_then_delete:
  "key x \<notin> set (map key xs) \<Longrightarrow> deleteRecord key (key x) (putRecord key x xs) = xs"
  using deleteRecord_fresh[of "key x" key xs]
  by (simp add: putRecord_fresh) (simp add: deleteRecord_def)

lemma enrichTask_fields [simp]:
  "lastCompletedAt (enrichTask host clock st task) = lastCompletedAt task"
  "task_id (enrichTask host clock st task) = task_id task"
  by (simp_all add: enrichTask_def Let_def)

lemma updateTask_fields [simp]:
  "completionLogs (fst (updateTask stamp st task)) = completionLogs st"
  "lastCompletedAt (snd (updateTask stamp st task)) = lastCompletedAt task"
  "task_id (snd (updateTask stamp st task)) = task_id task"
  "tasks (fst (updateTask stamp st task)) =
     putRecord task_id (snd (updateTask stamp st task)) (tasks st)"
  by (simp_all add: updateTask_def Let_def)

lemma markTaskComplete_fields:
  fixes host clock clock2 stamp newId st task user userName nt phs
  defines "res \<equiv> markTaskComplete host clock clock2 stamp newId st task user userName nt phs"
  shows "completionLogs (fst res) = putRecord log_id (snd (snd res)) (completionLogs st)"
    and "lastCompletedAt (fst (snd res)) = Some (getHKTime host clock)"
    and "task_id (fst (snd res)) = task_id task"
    and "log_id (snd (snd res)) = newId"
    and "taskId (snd (snd res)) = task_id task"
    and "completedAt (snd (snd res)) = getHKTime host clock"
    and "undoUntil (snd (snd res)) = getHKTime host clock + 300000"
  unfolding res_def markTaskComplete_def Let_def createCompletionLog_def
  by (simp_all add: split_beta)

lemma undoTaskCompletion_fields:
  fixes host clock stamp st task logId
  defines "res \<equiv> undoTaskCompletion host clock stamp st task logId"
  shows "completionLogs (fst res) = deleteRecord log_id logId (completionLogs st)"
    and "lastCompletedAt (snd res) =
           latestCompletion (filter (\<lambda>l. taskId l = task_id task)
                               (deleteRecord log_id logId (completionLogs st)))"
    and "task_id (snd res) = task_id task"
    and "tasks (fst res) = putRecord task_id (snd res) (tasks st)"
  unfolding res_def undoTaskCompletion_def Let_def first_of_sorted
  by (simp_all add: deleteCompletionLog_def getCompletionLogsByTask_def)

lemma markTaskComplete_consistent:
  assumes cons: "consistentWithLogs st task"
    and mono: "\<forall>d. lastCompletedAt task = Some d \<longrightarrow> d \<le> getHKTime host clock"
  shows "consistentWithLogs
           (fst (markTaskComplete host clock clock2 stamp newId st task user userName nt phs))
           (fst (snd (markTaskComplete host clock clock2 stamp newId st task user userName nt phs)))"
proof -
  define res where
    "res = markTaskComplete host clock clock2 stamp newId st task user userName nt phs"
  let ?now = "getHKTime host clock"
  let ?log = "snd (snd res)"
  let ?old = "filter (\<lambda>l. taskId l = task_id task) (completionLogs st)"
  let ?new = "filter (\<lambda>l. taskId l = task_id task) (completionLogs (fst res))"
  have f: "completionLogs (fst res) = putRecord log_id ?log (completionLogs st)"
    "lastCompletedAt (fst (snd res)) = Some ?now"
    "task_id (fst (snd res)) = task_id task"
    "taskId ?log = task_id task" "completedAt ?log = ?now"
    unfolding res_def by (rule markTaskComplete_fields)+
  have old: "\<forall>x\<in>set ?old. completedAt x \<le> ?now"
  proof
    fix x assume x: "x \<in> set ?old"
    then have "0 < length ?old" by (rule length_pos_if_in_set)
    then have "?old \<noteq> []" by (rule iffD1[OF length_greater_0_conv])
    then obtain d where d: "latestCompletion ?old = Some d"
      using latestCompletion_Some by blast
    then have "lastCompletedAt task = Some d"
      using cons by (simp add: consistentWithLogs_def getCompletionLogsByTask_def)
    then have "d \<le> ?now" using mono by simp
    moreover have "completedAt x \<le> d" using latestCompletion_bound[OF d x] .
    ultimately show "completedAt x \<le> ?now" by simp
  qed
  have mem: "?log \<in> set ?new" using f(1,4) putRecord_mem[of ?log log_id] by simp
  have all: "\<forall>x\<in>set ?new. completedAt x \<le> ?now"
  proof
    fix x assume "x \<in> set ?new"
    then have "x = ?log \<or> x \<in> set ?old"
      using set_putRecord[of log_id ?log "completionLogs st"] f(1) by auto
    then show "completedAt x \<le> ?now" using old f(5) by auto
  qed
  have "latestCompletion ?new = Some ?now"
    using mem f(5) all by (rule latestCompletion_is_now)
  then show ?thesis
    unfolding res_def[symmetric]
    by (simp add: consistentWithLogs_def getCompletionLogsByTask_def f(2,3))
qed

lemma undoTaskCompletion_consistent:
  "consistentWithLogs (fst (undoTaskCompletion host clock stamp st task logId))
     (snd (undoTaskCompletion host clock stamp st task logId))"
  by (simp add: consistentWithLogs_def getCompletionLogsByTask_def undoTaskCompletion_fields)

lemma firstCompletion_eval:
  "completionLogs (fst firstCompletion) = [snd (snd firstCompletion)]"
  "lastCompletedAt (fst (snd firstCompletion)) = Some 1706668200000"
  "task_id (fst (snd firstCompletion)) = ''task-7''"
  "log_id (snd (snd firstCompletion)) = ''log-a''"
  "taskId (snd (snd firstCompletion)) = ''task-7''"
  "completedAt (snd (snd firstCompletion)) = 1706668200000"
  unfolding firstCompletion_def markTaskComplete_fields
  by (simp_all add: emptyStore_def choreTask_def putRecord_def getHKTime_def toZonedTime_def
      TIMEZONE_def)

lemma secondCompletion_eval:
  "completionLogs (fst secondCompletion) = [snd (snd firstCompletion), snd (snd secondCompletion)]"
  "lastCompletedAt (fst (snd secondCompletion)) = Some 1706666400000"
  "task_id (fst (snd secondCompletion)) = ''task-7''"
  "taskId (snd (snd secondCompletion)) = ''task-7''"
  "completedAt (snd (snd secondCompletion)) = 1706666400000"
  unfolding secondCompletion_def markTaskComplete_fields
  by (simp_all add: firstCompletion_eval putRecord_def getHKTime_def toZonedTime_def
      TIMEZONE_def markTaskComplete_fields)

subsection \<open>Deleting a task\<close>

lemma last_requestStates: "last (requestStates f s xs) = foldl f s xs"
  by (induction xs arbitrary: s) (simp_all, metis requestStates.elims list.discI)

lemma deleteLoop_tasks:
  "tasks (foldl (\<lambda>s log. deleteCompletionLog s (log_id log)) s ls) = tasks s"
  by (induction ls arbitrary: s) (simp_all add: deleteCompletionLog_def)

lemma deleteLoop_logs:
  "completionLogs (foldl (\<lambda>s log. deleteCompletionLog s (log_id log)) s ls)
     = filter (\<lambda>x. log_id x \<notin> log_id ` set ls) (completionLogs s)"
proof (induction ls arbitrary: s)
  case Nil
  then show ?case by simp
next
  case (Cons l ls)
  let ?F = "\<lambda>s log. deleteCompletionLog s (log_id log)"
  have "completionLogs (foldl ?F (?F s l) ls)
      = filter (\<lambda>x. log_id x \<notin> log_id ` set ls) (completionLogs (?F s l))"
    by (rule Cons.IH)
  also have "\<dots> = filter (\<lambda>x. log_id x \<notin> log_id ` set (l # ls)) (completionLogs s)"
    by (auto simp: deleteCompletionLog_def deleteRecord_def intro: filter_cong)
  finally show ?case by simp
qed

lemma deleteTask_logs:
  "completionLogs (deleteTask st tid)
     = filter (\<lambda>x. log_id x \<notin> log_id ` {l \<in> set (completionLogs st). taskId l = tid})
         (completionLogs st)"
  by (simp add: deleteTask_def Let_def deleteLoop_logs getCompletionLogsByTask_def
      deleteTaskRow_def)

lemma deleteTask_tasks: "tasks (deleteTask st tid) = deleteRecord task_id tid (tasks st)"
  by (simp add: deleteTask_def Let_def deleteLoop_tasks deleteTaskRow_def)

lemma deleteTask_logs_distinct:
  assumes "distinct (map log_id (completionLogs st))"
  shows "completionLogs (deleteTask st tid)
           = filter (\<lambda>x. taskId x \<noteq> tid) (completionLogs st)"
proof -
  have inj: "inj_on log_id (set (completionLogs st))"
    using assms by (simp add: distinct_map)
  show ?thesis
    unfolding deleteTask_logs
  proof (rule filter_cong[OF refl])
    fix x assume x: "x \<in> set (completionLogs st)"
    show "(log_id x \<notin> log_id ` {l \<in> set (completionLogs st). taskId l = tid})
            = (taskId x \<noteq> tid)"
      using x inj by (auto dest: inj_onD)
  qed
qed

lemma threeLogStore_row:
  "tasks (deleteTaskRow threeLogStore ''task-7'') = [privateTask]"
  "completionLogs (deleteTaskRow threeLogStore ''task-7'') = completionLogs threeLogStore"
  by (simp_all add: deleteTaskRow_def threeLogStore_def deleteRecord_def choreTask_def
      privateTask_def)

section \<open>The claims\<close>





text \<open>
  Claim C3. For every task whose \<^verbatim>\<open>lastCompletedAt\<close> is consistent with its stored
  logs, \<^verbatim>\<open>markTaskComplete\<close> followed at once by \<^verbatim>\<open>undoTaskCompletion\<close>
  with the identifier of the log just created restores \<^verbatim>\<open>lastCompletedAt\<close> (and the
  stored logs) to what they were. The identifier that \<^verbatim>\<open>markTaskComplete\<close> draws
  from the clock and the random generator is taken to be new to the store.
\<close>

theorem complete_then_undo_restores:
  assumes "consistentWithLogs st task" and "\<not> hasLog st newId"
  shows "let (st1, task1, log) =
               markTaskComplete host clock clock2 stamp newId st task user userName nt phs;
             (st2, task2) = undoTaskCompletion host clockU stampU st1 task1 (log_id log)
         in lastCompletedAt task2 = lastCompletedAt task
            \<and> completionLogs st2 = completionLogs st"
proof -
  define res where
    "res = markTaskComplete host clock clock2 stamp newId st task user userName nt phs"
  define res2 where
    "res2 = undoTaskCompletion host clockU stampU (fst res) (fst (snd res))
              (log_id (snd (snd res)))"
  have fr: "log_id (snd (snd res)) \<notin> set (map log_id (completionLogs st))"
    using assms(2) markTaskComplete_fields(4)[of host clock clock2 stamp newId st task]
    by (simp add: res_def hasLog_def)
  have logs: "completionLogs (fst res2) = completionLogs st"
    unfolding res2_def undoTaskCompletion_fields(1) res_def markTaskComplete_fields(1)
    using fr put_then_delete[of log_id "snd (snd res)" "completionLogs st"]
    by (simp add: res_def)
  have "lastCompletedAt (snd res2) =
          latestCompletion (filter (\<lambda>l. taskId l = task_id task) (completionLogs (fst res2)))"
    unfolding res2_def undoTaskCompletion_fields
    by (simp add: res_def markTaskComplete_fields(3))
  then have "lastCompletedAt (snd res2) = lastCompletedAt task"
    using assms(1) logs by (simp add: consistentWithLogs_def getCompletionLogsByTask_def)
  with logs show ?thesis
    by (simp add: res_def res2_def split_beta)
qed

text \<open>A second completion of the example task, undone a minute later.\<close>

theorem complete_then_undo_restores_witness:
  "consistentWithLogs (fst firstCompletion) (fst (snd firstCompletion))
   \<and> \<not> hasLog (fst firstCompletion) ''log-c''
   \<and> (let (st1, task1, log) =
             markTaskComplete 28800000 1706754600000 1706754600000 1706754600000 ''log-c''
               (fst firstCompletion) (fst (snd firstCompletion)) ''helper-1'' ''Helper'' None [];
           (st2, task2) = undoTaskCompletion 28800000 1706754660000 1706754660000 st1 task1
               (log_id log)
       in lastCompletedAt task2 = Some 1706668200000
          \<and> completionLogs st2 = completionLogs (fst firstCompletion))"
proof -
  have h1: "consistentWithLogs (fst firstCompletion) (fst (snd firstCompletion))"
    by (simp add: consistentWithLogs_def getCompletionLogsByTask_def firstCompletion_eval)
  have h2: "\<not> hasLog (fst firstCompletion) ''log-c''"
    by (simp add: hasLog_def firstCompletion_eval)
  show ?thesis
    using h1 h2 complete_then_undo_restores[OF h1 h2, of 28800000 1706754600000
        1706754600000 1706754600000 "''helper-1''" "''Helper''" None "[]" 1706754660000
        1706754660000]
    by (simp add: firstCompletion_eval)
qed

text \<open>
  Claim C4, amended. For every list of tasks, \<^verbatim>\<open>sortTasksByStatus\<close> returns a
  permutation of the list in ascending order of the status rank (Overdue 0, DueToday 1,
  Upcoming 2, OK 3, a status not set counting as OK), and the sort is stable: tasks of
  equal status rank keep their order in the input. The priority is not a key of the sort.
\<close>

theorem sortTasksByStatus_stable_by_status:
  "mset (sortTasksByStatus ts) = mset ts
   \<and> sorted (map statusRank (sortTasksByStatus ts))
   \<and> (\<forall>k. filter (\<lambda>t. statusRank t = k) (sortTasksByStatus ts)
           = filter (\<lambda>t. statusRank t = k) ts)"
  by (simp add: sortTasksByStatus_sort_key sort_key_stable)

text \<open>
  Two tasks of status OK, the one of low priority first, stay in that order: the result is
  not ordered by status rank first and priority rank second.
\<close>

theorem sort_ignores_priority:
  "sortTasksByStatus [lowTask, highTask] = [lowTask, highTask]
   \<and> \<not> orderedByStatusThenPriority (sortTasksByStatus [lowTask, highTask])"
  by (simp add: sortTasksByStatus_def arraySort_def byStatus_def statusOrOK_def statusOrder_def
      lowTask_def highTask_def choreTask_def orderedByStatusThenPriority_def
      statusThenPriority_def statusRank_def priorityRank_def)

text \<open>Four tasks, one of them overdue and one without a status.\<close>

theorem sortTasksByStatus_stable_by_status_witness:
  "sortTasksByStatus [lowTask, choreTask\<lparr>status := Some Overdue\<rparr>, highTask, choreTask]
     = [choreTask\<lparr>status := Some Overdue\<rparr>, lowTask, highTask, choreTask]
   \<and> sorted (map statusRank
        (sortTasksByStatus [lowTask, choreTask\<lparr>status := Some Overdue\<rparr>, highTask, choreTask]))"
  using sortTasksByStatus_stable_by_status[of
      "[lowTask, choreTask\<lparr>status := Some Overdue\<rparr>, highTask, choreTask]"]
  by (simp add: sortTasksByStatus_def arraySort_def byStatus_def statusOrOK_def statusOrder_def
      lowTask_def highTask_def choreTask_def)

text \<open>
  Claim C5. \<^verbatim>\<open>calculateNextDueDate\<close> truncates the baseline to midnight of its
  calendar day in Hong Kong before the date arithmetic, never to midnight of the host's
  local time, and the time of day of the baseline has no effect on the result. The code
  keeps this for a baseline that \<^verbatim>\<open>getHKTime\<close> produced on the same host (lemma
  \<open>nextDue_after_completion\<close>) and breaks it for the start date of a seeded task, which
  \<^verbatim>\<open>seedTasks\<close> stores from \<^verbatim>\<open>new Date()\<close>: \<^verbatim>\<open>startOfDay\<close> truncates it
  in the local time of the host. On a host in UTC the weekly task seeded at 2024-01-01
  20:00 UTC (2024-01-02 04:00 in Hong Kong) is due at 2024-01-08 00:00 UTC, seven days
  after the host's midnight, where seven days after its Hong Kong midnight is 2024-01-08
  16:00 UTC; a start date five hours later on the same Hong Kong day gives another due
  date; and at 2024-01-07 20:00 UTC the status is DueToday already, one day before the
  due day both in Hong Kong and on the host.
\<close>

theorem nextDue_not_hong_kong_midnight:
  "specBaseline seededTask = Some 1704139200000
   \<and> frequency seededTask = weekly
   \<and> calculateNextDueDate 0 seededTask = Some 1704672000000
   \<and> startOfDay 0 1704139200000 + 7 * msPerDay = 1704672000000
   \<and> startOfDayIn TIMEZONE 1704139200000 + 7 * msPerDay = 1704729600000
   \<and> startOfDayIn TIMEZONE 1704157200000 = startOfDayIn TIMEZONE 1704139200000
   \<and> calculateNextDueDate 0 (seededTask\<lparr>startDate := Some 1704157200000\<rparr>)
       = Some 1704758400000
   \<and> calculateTaskStatus 0 1704657600000 seededTask = DueToday
   \<and> startOfDayIn TIMEZONE 1704657600000 + msPerDay = 1704729600000
   \<and> startOfDay 0 1704657600000 + msPerDay = 1704672000000"
proof -
  have b: "specBaseline seededTask = Some 1704139200000"
    "specBaseline (seededTask\<lparr>startDate := Some 1704157200000\<rparr>) = Some 1704157200000"
    "frequency seededTask = weekly"
    "frequency (seededTask\<lparr>startDate := Some 1704157200000\<rparr>) = weekly"
    by (simp_all add: specBaseline_def seededTask_def choreTask_def)
  have s: "startOfDay 0 1704139200000 + 7 * msPerDay = 1704672000000"
    "startOfDay 0 1704157200000 + 7 * msPerDay = 1704758400000"
    "startOfDay 0 1704657600000 + msPerDay = 1704672000000"
    by (simp_all add: startOfDay_eq msPerDay_def)
  have h: "startOfDayIn TIMEZONE 1704139200000 + 7 * msPerDay = 1704729600000"
    "startOfDayIn TIMEZONE 1704157200000 = startOfDayIn TIMEZONE 1704139200000"
    "startOfDayIn TIMEZONE 1704657600000 + msPerDay = 1704729600000"
    by (simp_all add: startOfDayIn_def TIMEZONE_def msPerDay_def)
  have d: "calculateNextDueDate 0 seededTask = Some 1704672000000"
    using calculateNextDueDate_weekly[OF b(1) b(3), of 0] s(1) by simp
  have t: "startOfDay 0 (getHKTime 0 1704657600000) = 1704672000000"
    "startOfDay 0 1704672000000 = 1704672000000"
    by (simp_all add: startOfDay_eq getHKTime_def toZonedTime_def TIMEZONE_def msPerDay_def)
  have st: "calculateTaskStatus 0 1704657600000 seededTask = DueToday"
    unfolding calculateTaskStatus_def d
    by (simp add: t isAfter_def isSameDay_def)
  show ?thesis
    using b s h d st calculateNextDueDate_weekly[OF b(2) b(4), of 0]
    by simp
qed

text \<open>
  Claim C6, amended. The predicate "the task's \<^verbatim>\<open>lastCompletedAt\<close> is the latest
  completion time among the task's stored logs, or absent when there are none" is
  preserved by \<^verbatim>\<open>markTaskComplete\<close> for every task that satisfies it beforehand and
  whose previous \<^verbatim>\<open>lastCompletedAt\<close> is not later than the new completion time (the
  normalized clock); \<^verbatim>\<open>undoTaskCompletion\<close> recomputes the field from the remaining
  logs and establishes the predicate for every task, log identifier and store.
\<close>

theorem consistency_kept:
  "(consistentWithLogs st task
      \<and> (\<forall>d. lastCompletedAt task = Some d \<longrightarrow> d \<le> getHKTime host clock)
    \<longrightarrow> (let (st1, task1, log) =
                markTaskComplete host clock clock2 stamp newId st task user userName nt phs
          in consistentWithLogs st1 task1))
   \<and> (let (st2, task2) = undoTaskCompletion host clockU stampU st task logId
      in consistentWithLogs st2 task2)"
  using markTaskComplete_consistent[of st task host clock clock2 stamp newId user userName nt phs]
    undoTaskCompletion_consistent[of host clockU stampU st task logId]
  by (simp add: split_beta)

text \<open>
  After the first completion the task is consistent with its logs. The second completion,
  half an hour later on a host whose zone is now UTC+9, gets a normalized completion time
  half an hour before the first; \<^verbatim>\<open>lastCompletedAt\<close> is set to it and is no longer the
  latest completion time of the stored logs.
\<close>

theorem completion_breaks_consistency:
  "consistentWithLogs (fst firstCompletion) (fst (snd firstCompletion))
   \<and> \<not> consistentWithLogs (fst secondCompletion) (fst (snd secondCompletion))"
  by (simp add: consistentWithLogs_def getCompletionLogsByTask_def firstCompletion_eval
      secondCompletion_eval)

text \<open>A further completion of the example task, a day after its first.\<close>

theorem consistency_kept_witness:
  "consistentWithLogs (fst firstCompletion) (fst (snd firstCompletion))
   \<and> lastCompletedAt (fst (snd firstCompletion)) = Some 1706668200000
   \<and> 1706668200000 \<le> getHKTime 28800000 1706754600000
   \<and> (let (st1, task1, log) =
             markTaskComplete 28800000 1706754600000 1706754600000 1706754600000 ''log-c''
               (fst firstCompletion) (fst (snd firstCompletion)) ''helper-1'' ''Helper'' None []
       in consistentWithLogs st1 task1 \<and> lastCompletedAt task1 = Some 1706754600000)"
proof -
  have h1: "consistentWithLogs (fst firstCompletion) (fst (snd firstCompletion))"
    by (simp add: consistentWithLogs_def getCompletionLogsByTask_def firstCompletion_eval)
  have h2: "1706668200000 \<le> getHKTime 28800000 1706754600000"
    by (simp add: getHKTime_def toZonedTime_def TIMEZONE_def)
  have h3: "\<forall>d. lastCompletedAt (fst (snd firstCompletion)) = Some d
              \<longrightarrow> d \<le> getHKTime 28800000 1706754600000"
    using h2 by (simp add: firstCompletion_eval)
  have l: "lastCompletedAt (fst (snd (markTaskComplete 28800000 1706754600000 1706754600000
      1706754600000 ''log-c'' (fst firstCompletion) (fst (snd firstCompletion)) ''helper-1''
      ''Helper'' None []))) = Some 1706754600000"
    unfolding markTaskComplete_fields
    by (simp add: getHKTime_def toZonedTime_def TIMEZONE_def)
  show ?thesis
    using h1 h2 h3 l
      consistency_kept[of "fst firstCompletion" "fst (snd firstCompletion)" 28800000
        1706754600000 1706754600000 1706754600000 "''log-c''" "''helper-1''" "''Helper''"
        None "[]"]
    by (simp add: split_beta firstCompletion_eval)
qed

text \<open>
  Claim C7. \<^verbatim>\<open>undoTaskCompletion\<close> has no failing branch and never compares the
  clock with \<^verbatim>\<open>undoUntil\<close>: for every store, task, log identifier and clock reading
  it returns a store that has no log of that identifier, with the other logs unchanged,
  and the task with \<^verbatim>\<open>lastCompletedAt\<close> recomputed from the remaining logs, stored
  in the returned store.
\<close>

theorem undo_never_rejects:
  "let (st', task') = undoTaskCompletion host clock stamp st task logId
   in \<not> hasLog st' logId
      \<and> completionLogs st' = deleteRecord log_id logId (completionLogs st)
      \<and> lastCompletedAt task' = latestCompletion (getCompletionLogsByTask st' (task_id task))
      \<and> task' \<in> set (tasks st')"
  using deleteRecord_gone[of logId log_id "completionLogs st"]
    putRecord_mem[of "snd (undoTaskCompletion host clock stamp st task logId)" task_id "tasks st"]
  by (simp add: split_beta hasLog_def undoTaskCompletion_fields getCompletionLogsByTask_def)

text \<open>The first completion undone a day later, long after its \<^verbatim>\<open>undoUntil\<close>.\<close>

theorem undo_never_rejects_witness:
  "undoUntil (snd (snd firstCompletion)) \<le> getHKTime 28800000 1706754600000
   \<and> hasLog (fst firstCompletion) ''log-a''
   \<and> (let (st', task') =
            undoTaskCompletion 28800000 1706754600000 1706754600000 (fst firstCompletion)
              (fst (snd firstCompletion)) ''log-a''
       in \<not> hasLog st' ''log-a'' \<and> completionLogs st' = [] \<and> lastCompletedAt task' = None)"
proof -
  have u: "undoUntil (snd (snd firstCompletion)) = 1706668500000"
    unfolding firstCompletion_def markTaskComplete_fields
    by (simp add: getHKTime_def toZonedTime_def TIMEZONE_def)
  show ?thesis
    using undo_never_rejects[of 28800000 1706754600000 1706754600000 "fst firstCompletion"
        "fst (snd firstCompletion)" "''log-a''"]
    by (simp add: u split_beta hasLog_def firstCompletion_eval deleteRecord_def
        getCompletionLogsByTask_def getHKTime_def toZonedTime_def TIMEZONE_def)
qed

text \<open>
  Claim C8. For every task list and user: for an Owner \<^verbatim>\<open>filterTasksByAssignee\<close>
  returns the whole list; for a Helper \<open>h\<close> it returns exactly the tasks, in their
  order, that are assigned to all helpers or have \<open>h\<close> among their assignees; so a task
  not assigned to all helpers and without \<open>h\<close> among its assignees is not in the
  Helper's list.
\<close>

theorem filterTasksByAssignee_visibility:
  "filterTasksByAssignee ts h True = ts
   \<and> filterTasksByAssignee ts h False =
       filter (\<lambda>t. assignedToAllHelpers t \<or> h \<in> set (assignees t)) ts
   \<and> (\<not> assignedToAllHelpers t \<and> h \<notin> set (assignees t)
        \<longrightarrow> t \<notin> set (filterTasksByAssignee ts h False))"
  by (simp add: filterTasksByAssignee_def includesElem_def)

text \<open>Scenario D: a task assigned to another helper only.\<close>

theorem filterTasksByAssignee_visibility_witness:
  "\<not> assignedToAllHelpers privateTask \<and> ''helper-1'' \<notin> set (assignees privateTask)
   \<and> privateTask \<notin> set (filterTasksByAssignee [choreTask, privateTask] ''helper-1'' False)
   \<and> privateTask \<in> set (filterTasksByAssignee [choreTask, privateTask] ''helper-1'' True)"
  using filterTasksByAssignee_visibility[of "[choreTask, privateTask]" "''helper-1''" privateTask]
  by (simp add: privateTask_def choreTask_def)

text \<open>
  Claim C9, amended. For every store and task identifier, after \<^verbatim>\<open>deleteTask\<close> the
  store holds neither the task nor any log of the task; the other tasks are untouched and,
  log identifiers being unique, so are the logs of the other tasks. The task row is
  deleted first, with all the logs of the task still in the store, and the logs are
  deleted after it, one request each.
\<close>

theorem deleteTask_cascade:
  "\<not> hasTask (deleteTask st tid) tid
   \<and> getCompletionLogsByTask (deleteTask st tid) tid = []
   \<and> tasks (deleteTask st tid) = filter (\<lambda>t. task_id t \<noteq> tid) (tasks st)
   \<and> (distinct (map log_id (completionLogs st)) \<longrightarrow>
        completionLogs (deleteTask st tid)
          = filter (\<lambda>l. taskId l \<noteq> tid) (completionLogs st))
   \<and> last (deleteTaskStates st tid) = deleteTask st tid
   \<and> deleteTaskStates st tid ! 1 = deleteTaskRow st tid
   \<and> \<not> hasTask (deleteTaskRow st tid) tid
   \<and> getCompletionLogsByTask (deleteTaskRow st tid) tid = getCompletionLogsByTask st tid"
proof -
  have 1: "\<not> hasTask (deleteTask st tid) tid"
    using deleteRecord_gone[of tid task_id "tasks st"]
    by (simp add: hasTask_def deleteTask_tasks)
  have 2: "getCompletionLogsByTask (deleteTask st tid) tid = []"
    by (auto simp: getCompletionLogsByTask_def deleteTask_logs filter_empty_conv)
  have 3: "last (deleteTaskStates st tid) = deleteTask st tid"
    by (simp add: deleteTaskStates_def deleteTask_def Let_def last_requestStates)
      (metis requestStates.elims list.discI)
  have 4: "deleteTaskStates st tid ! 1 = deleteTaskRow st tid"
    by (cases "getCompletionLogsByTask (deleteTaskRow st tid) tid")
      (simp_all add: deleteTaskStates_def Let_def)
  have 5: "\<not> hasTask (deleteTaskRow st tid) tid"
    using deleteRecord_gone[of tid task_id "tasks st"]
    by (simp add: hasTask_def deleteTaskRow_def)
  show ?thesis
    using 1 2 3 4 5 deleteTask_logs_distinct[of st tid]
    by (simp add: deleteTask_tasks deleteRecord_def getCompletionLogsByTask_def
        deleteTaskRow_def)
qed

text \<open>
  Deleting a task that has three logs: the store after the first request has lost the
  task and still holds the three logs, so the logs are deleted neither first nor
  atomically with the task.
\<close>

theorem deleteTask_orphans_on_the_way:
  "hasTask threeLogStore ''task-7''
   \<and> length (getCompletionLogsByTask threeLogStore ''task-7'') = 3
   \<and> \<not> hasTask (deleteTaskStates threeLogStore ''task-7'' ! 1) ''task-7''
   \<and> length (getCompletionLogsByTask (deleteTaskStates threeLogStore ''task-7'' ! 1) ''task-7'') = 3
   \<and> \<not> logsFirstOrAtomic (deleteTaskStates threeLogStore ''task-7'') ''task-7''"
proof -
  have s1: "deleteTaskStates threeLogStore ''task-7'' ! 1 = deleteTaskRow threeLogStore ''task-7''"
    by (cases "getCompletionLogsByTask (deleteTaskRow threeLogStore ''task-7'') ''task-7''")
      (simp_all add: deleteTaskStates_def Let_def)
  have a: "hasTask threeLogStore ''task-7''"
    by (simp add: hasTask_def threeLogStore_def choreTask_def)
  have b: "\<not> hasTask (deleteTaskRow threeLogStore ''task-7'') ''task-7''"
    by (simp add: hasTask_def threeLogStore_row privateTask_def)
  have c: "length (getCompletionLogsByTask (deleteTaskRow threeLogStore ''task-7'') ''task-7'') = 3"
    "length (getCompletionLogsByTask threeLogStore ''task-7'') = 3"
    by (simp_all add: getCompletionLogsByTask_def threeLogStore_row)
      (simp_all add: threeLogStore_def logOf_def)
  have "deleteTaskRow threeLogStore ''task-7'' \<in> set (deleteTaskStates threeLogStore ''task-7'')"
    by (cases "getCompletionLogsByTask (deleteTaskRow threeLogStore ''task-7'') ''task-7''")
      (simp_all add: deleteTaskStates_def Let_def)
  then have "\<not> logsFirstOrAtomic (deleteTaskStates threeLogStore ''task-7'') ''task-7''"
    using b c(1) by (auto simp: logsFirstOrAtomic_def list_all_iff)
  with a b c s1 show ?thesis by simp
qed

text \<open>Scenario E: no log of the deleted task is left, the log of the other task stays.\<close>

theorem deleteTask_cascade_witness:
  "distinct (map log_id (completionLogs threeLogStore))
   \<and> completionLogs (deleteTask threeLogStore ''task-7'') = [logOf ''log-2'' ''task-p'' 1706668300000]
   \<and> tasks (deleteTask threeLogStore ''task-7'') = [privateTask]
   \<and> getCompletionLogsByTask (deleteTask threeLogStore ''task-7'') ''task-7'' = []"
proof -
  have d: "distinct (map log_id (completionLogs threeLogStore))"
    by (simp add: threeLogStore_def logOf_def)
  show ?thesis
    using d deleteTask_cascade[of threeLogStore "''task-7''"]
    by (simp add: threeLogStore_def logOf_def choreTask_def privateTask_def)
qed

text \<open>
  Claim C10. For every task list, a task whose status is not set is in none of the four
  buckets of \<^verbatim>\<open>groupTasksByStatus\<close>, and the buckets together hold exactly the tasks
  whose status is set; \<^verbatim>\<open>sortTasksByStatus\<close> ranks such a task as OK: its result is
  the Overdue bucket, then the DueToday bucket, then the Upcoming bucket, then the tasks
  that have the status OK or no status, these in their order in the input; and sorting
  commutes with giving the tasks without status the status OK.
\<close>

theorem unset_status_group_and_sort:
  "(status t = None \<longrightarrow>
      t \<notin> set (groupOverdue (groupTasksByStatus ts))
      \<and> t \<notin> set (groupDueToday (groupTasksByStatus ts))
      \<and> t \<notin> set (groupUpcoming (groupTasksByStatus ts))
      \<and> t \<notin> set (groupOK (groupTasksByStatus ts))
      \<and> statusOrOK t = OK)
   \<and> mset (groupOverdue (groupTasksByStatus ts)) + mset (groupDueToday (groupTasksByStatus ts))
       + mset (groupUpcoming (groupTasksByStatus ts)) + mset (groupOK (groupTasksByStatus ts))
     = mset (filter (\<lambda>t. status t \<noteq> None) ts)
   \<and> sortTasksByStatus ts =
       groupOverdue (groupTasksByStatus ts) @ groupDueToday (groupTasksByStatus ts)
       @ groupUpcoming (groupTasksByStatus ts)
       @ filter (\<lambda>t. status t = Some OK \<or> status t = None) ts
   \<and> sortTasksByStatus (map defaultOK ts) = map defaultOK (sortTasksByStatus ts)"
proof -
  have g: "mset (filter (\<lambda>t. status t = Some Overdue) ts)
         + mset (filter (\<lambda>t. status t = Some DueToday) ts)
         + mset (filter (\<lambda>t. status t = Some Upcoming) ts)
         + mset (filter (\<lambda>t. status t = Some OK) ts)
       = mset (filter (\<lambda>t. status t \<noteq> None) ts)"
  proof (induction ts)
    case Nil
    then show ?case by simp
  next
    case (Cons a ts)
    show ?case
    proof (cases "status a")
      case None
      with Cons show ?thesis by simp
    next
      case (Some s)
      with Cons show ?thesis by (cases s) simp_all
    qed
  qed
  have s: "sortTasksByStatus (map defaultOK ts) = map defaultOK (sortTasksByStatus ts)"
    unfolding sortTasksByStatus_def
    by (rule arraySort_map) (simp add: byStatus_def statusOrOK_defaultOK)
  show ?thesis
    using g s sortTasksByStatus_buckets[of ts]
    by (simp add: groupTasksByStatus_def statusOrOK_def)
qed

text \<open>
  A task without status before a task of status OK and an overdue task: the overdue task
  comes first, the other two keep their order.
\<close>

theorem unset_status_group_and_sort_witness:
  "status choreTask = None
   \<and> groupTasksByStatus [choreTask, highTask, overdueTask]
       = \<lparr> groupOverdue = [overdueTask], groupDueToday = [], groupUpcoming = [],
           groupOK = [highTask] \<rparr>
   \<and> sortTasksByStatus [choreTask, highTask, overdueTask] = [overdueTask, choreTask, highTask]
   \<and> sortTasksByStatus [choreTask, overdueTask] = [overdueTask, choreTask]"
  using unset_status_group_and_sort[of choreTask "[choreTask, highTask, overdueTask]"]
    unset_status_group_and_sort[of choreTask "[choreTask, overdueTask]"]
  by (simp add: groupTasksByStatus_def choreTask_def highTask_def overdueTask_def)

end
